theory Spec2Isabelle
  imports Complex_Main
begin

section \<open>Circuits and errors\<close>

text \<open>
  A circuit is the ordered list of the instructions appended to a \<open>QuantumCircuit\<close>.
  The instructions are the ones the program appends: \<open>swap\<close>, \<open>x\<close>, \<open>h\<close>,
  \<open>cp\<close> (angle, control, target), a sub-circuit in controlled form
  (\<open>U.control()\<close> appended on a qubit list whose head is the control), a plain
  sub-circuit appended on a qubit list, and \<open>measure\<close> (qubit, classical bit).
  Register sizes are naturals: \<open>QuantumCircuit\<close> rejects a negative size.
\<close>

text \<open>An angle, as a rational multiple of the constant \<open>np.pi\<close>.\<close>

datatype angle = PiTimes rat

datatype instr =
    SwapG nat nat
  | XG nat
  | HG nat
  | CPG angle nat nat
  | ControlledG "instr list" "nat list"
  | AppendG "instr list" "nat list"
  | MeasureG nat nat

type_synonym circuit = "instr list"

text \<open>
  The exceptions the program and the library calls it makes can raise:
  \<open>UnsupportedBase\<close> is the \<open>ValueError\<close> of \<open>c_amod15\<close>,
  \<open>EmptyRange\<close> the \<open>ValueError\<close> of \<open>random.randint\<close> on an empty range,
  \<open>MaxDenominatorTooSmall\<close> the \<open>ValueError\<close> of
  \<open>Fraction.limit_denominator\<close>, \<open>InvalidLiteral\<close> the \<open>ValueError\<close> of
  \<open>int(s, 2)\<close>, \<open>OverflowError\<close> the one of \<open>float\<close> on an integer too
  large for a double.
\<close>

datatype error =
    UnsupportedBase
  | EmptyRange
  | MaxDenominatorTooSmall
  | InvalidLiteral
  | OverflowError
  | ZeroDivisionError

section \<open>The modular-exponentiation oracle\<close>

text \<open>
  One pass of the body of the loop \<open>for iteration in range(power)\<close> of
  \<open>c_amod15\<close>: the four \<open>if\<close> statements run in this order, each appending its
  gates when the base is in its list.
\<close>

definition amod15_iteration :: "int \<Rightarrow> circuit" where
  "amod15_iteration a =
     (if a \<in> {2, 13} then [SwapG 0 1, SwapG 1 2, SwapG 2 3] else [])
   @ (if a \<in> {7, 8} then [SwapG 2 3, SwapG 1 2, SwapG 0 1] else [])
   @ (if a \<in> {4, 11} then [SwapG 1 3, SwapG 0 2] else [])
   @ (if a \<in> {7, 11, 13} then map XG [0..<4] else [])"

text \<open>The loop itself: \<open>range(power)\<close> is empty for a power below one.\<close>

fun amod15_loop :: "int \<Rightarrow> nat \<Rightarrow> circuit \<Rightarrow> circuit" where
  "amod15_loop a 0 U = U"
| "amod15_loop a (Suc k) U = amod15_loop a k (U @ amod15_iteration a)"

definition c_amod15 :: "int \<Rightarrow> int \<Rightarrow> error + circuit" where
  "c_amod15 a pw =
     (if a \<notin> {2, 4, 7, 8, 11, 13} then Inl UnsupportedBase
      else Inr (amod15_loop a (nat pw) []))"

subsection \<open>Action on computational-basis states\<close>

text \<open>
  A basis state of a register is the list of its bits, qubit \<open>i\<close> at position \<open>i\<close>.
  \<open>swap\<close> exchanges two bits and \<open>x\<close> flips one; the other instructions do not map
  basis states to basis states and have no classical action (\<open>None\<close>), as has a gate
  on a qubit the register does not have.
\<close>

fun apply_basis :: "instr \<Rightarrow> bool list \<Rightarrow> bool list option" where
  "apply_basis (SwapG i j) s =
     (if i < length s \<and> j < length s then Some (s[i := s ! j, j := s ! i]) else None)"
| "apply_basis (XG q) s =
     (if q < length s then Some (s[q := \<not> s ! q]) else None)"
| "apply_basis _ s = None"

fun run_basis :: "circuit \<Rightarrow> bool list \<Rightarrow> bool list option" where
  "run_basis [] s = Some s"
| "run_basis (g # gs) s =
     (case apply_basis g s of None \<Rightarrow> None | Some s' \<Rightarrow> run_basis gs s')"

text \<open>
  The integer a basis state encodes. Qubit 0 is the least significant bit: the program
  prepares the work register in the state it calls \<open>|1>\<close> by one \<open>x\<close> on the first
  work qubit (\<open>qc.x(counting_qubits)\<close>), and reads the counting register with
  \<open>int(output, 2)\<close> from keys that carry qubit 0 rightmost.
\<close>

fun basis_value :: "bool list \<Rightarrow> nat" where
  "basis_value [] = 0"
| "basis_value (b # bs) = (if b then 1 else 0) + 2 * basis_value bs"

fun basis_state :: "nat \<Rightarrow> nat \<Rightarrow> bool list" where
  "basis_state 0 x = []"
| "basis_state (Suc w) x = odd x # basis_state w (x div 2)"

text \<open>
  The action of the circuit \<open>c_amod15(a, power)\<close> on the work-register state that
  encodes \<open>x\<close>: the encoded integer of the image state.
\<close>

definition oracle_action :: "int \<Rightarrow> int \<Rightarrow> nat \<Rightarrow> error + nat option" where
  "oracle_action a pw x =
     (case c_amod15 a pw of
        Inl e \<Rightarrow> Inl e
      | Inr U \<Rightarrow> Inr (map_option basis_value (run_basis U (basis_state 4 x))))"

text \<open>
  The permutation of the integers below 16 that one application of the oracle
  (\<open>c_amod15(a, 1)\<close>) performs, and the same on the bits of a state.
\<close>

definition oracle_perm :: "int \<Rightarrow> nat \<Rightarrow> nat" where
  "oracle_perm a x = (case oracle_action a 1 x of Inr (Some y) \<Rightarrow> y | _ \<Rightarrow> x)"

definition iteration_bits :: "int \<Rightarrow> bool list \<Rightarrow> bool list" where
  "iteration_bits a s =
     (case run_basis (amod15_iteration a) s of Some s' \<Rightarrow> s' | None \<Rightarrow> s)"

text \<open>
  The multiplicative order of \<open>a\<close> modulo \<open>m\<close>: the least \<open>r \<ge> 1\<close> with
  \<open>a^r mod m = 1\<close>, searched below \<open>m\<close>; 0 when there is none.
\<close>

definition mult_order :: "int \<Rightarrow> int \<Rightarrow> nat" where
  "mult_order a m =
     (case find (\<lambda>r. a ^ r mod m = 1) [1..<nat m] of Some r \<Rightarrow> r | None \<Rightarrow> 0)"

section \<open>The inverse Fourier transform\<close>

text \<open>
  The angle \<open>-np.pi/float(2**(j-m))\<close> for \<open>k = j - m\<close>. \<open>float\<close> raises
  \<open>OverflowError\<close> on an integer that does not fit a double, which for a power of two
  is from \<open>2**1024\<close> on. Below that the division of \<open>-np.pi\<close> by a power of two
  is exact in double precision, so the angle is \<open>np.pi\<close> times \<open>-1 / 2^k\<close>.
\<close>

definition cp_angle :: "nat \<Rightarrow> error + angle" where
  "cp_angle k =
     (if (2::int) ^ 1024 \<le> 2 ^ k then Inl OverflowError else Inr (PiTimes (- 1 / 2 ^ k)))"

text \<open>\<open>for qubit in range(n//2): qc.swap(qubit, n-qubit-1)\<close>\<close>

fun qft_swaps :: "nat \<Rightarrow> nat list \<Rightarrow> circuit \<Rightarrow> circuit" where
  "qft_swaps n [] qc = qc"
| "qft_swaps n (qubit # rest) qc = qft_swaps n rest (qc @ [SwapG qubit (n - qubit - 1)])"

text \<open>\<open>for m in range(j): qc.cp(-np.pi/float(2**(j-m)), m, j)\<close>\<close>

fun qft_inner :: "nat \<Rightarrow> nat list \<Rightarrow> circuit \<Rightarrow> error + circuit" where
  "qft_inner j [] qc = Inr qc"
| "qft_inner j (m # rest) qc =
     (case cp_angle (j - m) of
        Inl e \<Rightarrow> Inl e
      | Inr theta \<Rightarrow> qft_inner j rest (qc @ [CPG theta m j]))"

text \<open>\<open>for j in range(n): <inner loop>; qc.h(j)\<close>\<close>

fun qft_outer :: "nat list \<Rightarrow> circuit \<Rightarrow> error + circuit" where
  "qft_outer [] qc = Inr qc"
| "qft_outer (j # rest) qc =
     (case qft_inner j [0..<j] qc of
        Inl e \<Rightarrow> Inl e
      | Inr qc' \<Rightarrow> qft_outer rest (qc' @ [HG j]))"

definition qft_dagger :: "nat \<Rightarrow> error + circuit" where
  "qft_dagger n = qft_outer [0..<n] (qft_swaps n [0..<n div 2] [])"

text \<open>
  The construction as the specification words it: the swap network, then for each
  qubit \<open>j\<close> ascending the controlled phases from every earlier qubit \<open>m\<close> ascending
  and the Hadamard on \<open>j\<close>.
\<close>

definition qft_dagger_spec :: "nat \<Rightarrow> circuit" where
  "qft_dagger_spec n =
     map (\<lambda>i. SwapG i (n - 1 - i)) [0..<n div 2]
   @ concat (map (\<lambda>j. map (\<lambda>m. CPG (PiTimes (- 1 / 2 ^ (j - m))) m j) [0..<j] @ [HG j]) [0..<n])"

section \<open>The phase-estimation circuit\<close>

text \<open>\<open>for q in range(counting_qubits): qc.h(q)\<close>\<close>

fun h_loop :: "nat list \<Rightarrow> circuit \<Rightarrow> circuit" where
  "h_loop [] qc = qc"
| "h_loop (q # rest) qc = h_loop rest (qc @ [HG q])"

text \<open>
  The loop of the controlled oracle applications. \<open>c_amod15\<close> raises on the first
  pass when the base is not supported.
\<close>

fun controlled_loop :: "int \<Rightarrow> nat \<Rightarrow> nat list \<Rightarrow> circuit \<Rightarrow> error + circuit" where
  "controlled_loop a c [] qc = Inr qc"
| "controlled_loop a c (q # rest) qc =
     (case c_amod15 a (2 ^ (c - q - 1)) of
        Inl e \<Rightarrow> Inl e
      | Inr U \<Rightarrow> controlled_loop a c rest (qc @ [ControlledG U ([q] @ [c..<c + 4])]))"

text \<open>
  \<open>create_shors_circuit(a, n, counting_qubits)\<close>; the modulus \<open>n\<close> is not used by the
  body. \<open>qc.measure(range(c), range(c))\<close> appends one measurement per counting qubit.
\<close>

definition create_shors_circuit :: "int \<Rightarrow> int \<Rightarrow> nat \<Rightarrow> error + circuit" where
  "create_shors_circuit a n c =
     (let qc = h_loop [0..<c] [];
          qc = qc @ [XG c]
      in case controlled_loop a c [0..<c] qc of
           Inl e \<Rightarrow> Inl e
         | Inr qc \<Rightarrow>
             (case qft_dagger c of
                Inl e \<Rightarrow> Inl e
              | Inr qd \<Rightarrow>
                  Inr ((qc @ [AppendG qd [0..<c]]) @ map (\<lambda>q. MeasureG q q) [0..<c])))"

text \<open>
  The circuit as the specification lists it: the Hadamards on the counting qubits,
  the \<open>x\<close> on the first work qubit, one controlled oracle per counting qubit \<open>q\<close>
  with \<open>2^(c - q - 1)\<close> repetitions of the base pattern, the inverse transform on
  the counting register, the measurements.
\<close>

definition shors_circuit_spec :: "int \<Rightarrow> nat \<Rightarrow> circuit" where
  "shors_circuit_spec a c =
     map HG [0..<c] @ [XG c]
   @ map (\<lambda>q. ControlledG (amod15_loop a (2 ^ (c - q - 1)) []) (q # [c..<c + 4])) [0..<c]
   @ [AppendG (qft_dagger_spec c) [0..<c]]
   @ map (\<lambda>q. MeasureG q q) [0..<c]"

text \<open>
  The qubits of the enclosing circuit that an instruction measures: its own qubit for
  a measurement, and for a sub-circuit the qubits its inner measurements are mapped
  to (the controlled form keeps its control at the head of the list).
\<close>

fun measured :: "instr \<Rightarrow> nat list" where
  "measured (MeasureG q cb) = [q]"
| "measured (ControlledG U qs) = map (\<lambda>i. qs ! Suc i) (concat (map measured U))"
| "measured (AppendG U qs) = map (\<lambda>i. qs ! i) (concat (map measured U))"
| "measured _ = []"

text \<open>The controlled oracle applications of a circuit, in order.\<close>

fun controlled_ops :: "circuit \<Rightarrow> (nat \<times> circuit \<times> nat list) list" where
  "controlled_ops [] = []"
| "controlled_ops (ControlledG U (q # ts) # rest) = (q, U, ts) # controlled_ops rest"
| "controlled_ops (_ # rest) = controlled_ops rest"

section \<open>The period extractor\<close>

text \<open>
  The histogram \<open>counts\<close> is a dictionary from bitstring to count; its iteration
  order is its insertion order and decides ties in the stable sort below, so it is an
  association list with one pair per key.
\<close>

type_synonym histogram = "(string \<times> int) list"

text \<open>
  \<open>int(output, 2)\<close> on a string of binary digits, most significant first; the empty
  string and any other character raise \<open>ValueError\<close>. The keys an execution returns
  are strings over 0 and 1; the other literal forms Python reads (sign, prefix,
  blanks, underscores) do not occur in them and are not modelled.
\<close>

fun int2_digits :: "string \<Rightarrow> int \<Rightarrow> error + int" where
  "int2_digits [] acc = Inr acc"
| "int2_digits (ch # rest) acc =
     (if ch = CHR ''0'' then int2_digits rest (2 * acc)
      else if ch = CHR ''1'' then int2_digits rest (2 * acc + 1)
      else Inl InvalidLiteral)"

definition int2 :: "string \<Rightarrow> error + int" where
  "int2 s = (if s = [] then Inl InvalidLiteral else int2_digits s 0)"

text \<open>
  The first loop: \<open>phase = decimal / (2**counting_qubits)\<close> for each key, appended
  with its count. The quotient is a double; for \<open>decimal < 2^53\<close> and
  \<open>counting_qubits \<le> 1074\<close> it is exactly the rational \<open>decimal / 2^c\<close>, which is
  what \<open>Fraction(phase)\<close> later recovers, so the phase is kept as that rational.
\<close>

fun phases_loop :: "histogram \<Rightarrow> nat \<Rightarrow> (rat \<times> int) list \<Rightarrow> error + (rat \<times> int) list" where
  "phases_loop [] c acc = Inr acc"
| "phases_loop ((output, cnt) # rest) c acc =
     (case int2 output of
        Inl e \<Rightarrow> Inl e
      | Inr decimal \<Rightarrow> phases_loop rest c (acc @ [(of_int decimal / 2 ^ c, cnt)]))"

text \<open>
  \<open>measured_phases.sort(key=lambda x: x[1], reverse=True)\<close>: a stable sort by
  descending count (pairs of equal count keep their order).
\<close>

definition sort_phases :: "(rat \<times> int) list \<Rightarrow> (rat \<times> int) list" where
  "sort_phases ps = sort_key (\<lambda>x. - snd x) ps"

text \<open>
  \<open>Fraction.limit_denominator\<close> of the Python library. The loop of the
  continued-fraction expansion; \<open>n // d\<close> raises when \<open>d\<close> is zero.
\<close>

function ld_loop ::
  "int \<Rightarrow> int \<Rightarrow> int \<Rightarrow> int \<Rightarrow> int \<Rightarrow> int \<Rightarrow> int \<Rightarrow> error + (int \<times> int \<times> int \<times> int)" where
  "ld_loop mx p0 q0 p1 q1 n d =
     (if d = 0 then Inl ZeroDivisionError
      else let a = n div d; q2 = q0 + a * q1
           in if q2 > mx then Inr (p0, q0, p1, q1)
              else ld_loop mx p1 q1 (p0 + a * p1) q2 d (n - a * d))"
  by pat_completeness auto
termination
proof (relation "measure (\<lambda>(mx, p0, q0, p1, q1, n, d). nat \<bar>d\<bar>)")
  show "wf (measure (\<lambda>(mx, p0, q0, p1, q1, n, d). nat \<bar>d\<bar>))" by simp
next
  fix mx p0 q0 p1 q1 n d :: int and x xa
  assume d: "d \<noteq> 0" and x: "x = n div d"
  have "n - x * d = n mod d"
    unfolding x by (simp add: minus_div_mult_eq_mod)
  moreover have "\<bar>n mod d\<bar> < \<bar>d\<bar>"
    using d by (rule abs_mod_less)
  ultimately show "((mx, p1, q1, p0 + x * p1, xa, d, n - x * d), (mx, p0, q0, p1, q1, n, d))
        \<in> measure (\<lambda>(mx, p0, q0, p1, q1, n, d). nat \<bar>d\<bar>)"
    using d by simp
qed

definition limit_denominator :: "rat \<Rightarrow> int \<Rightarrow> error + rat" where
  "limit_denominator self mx =
     (if mx < 1 then Inl MaxDenominatorTooSmall
      else if snd (quotient_of self) \<le> mx then Inr self
      else case ld_loop mx 0 1 1 0 (fst (quotient_of self)) (snd (quotient_of self)) of
             Inl e \<Rightarrow> Inl e
           | Inr (p0, q0, p1, q1) \<Rightarrow>
               if q1 = 0 then Inl ZeroDivisionError
               else let k = (mx - q0) div q1
                    in if q0 + k * q1 = 0 then Inl ZeroDivisionError
                       else let bound1 = Fract (p0 + k * p1) (q0 + k * q1);
                                bound2 = Fract p1 q1
                            in if \<bar>bound2 - self\<bar> \<le> \<bar>bound1 - self\<bar>
                               then Inr bound2 else Inr bound1)"

text \<open>The acceptance test of a candidate \<open>r\<close>.\<close>

definition valid_period :: "int \<Rightarrow> int \<Rightarrow> int \<Rightarrow> bool" where
  "valid_period a n r \<longleftrightarrow>
     r mod 2 = 0 \<and> a ^ nat (r div 2) mod n \<noteq> n - 1 \<and> a ^ nat r mod n = 1"

text \<open>
  The second loop, over the slice \<open>measured_phases[:5]\<close>: the first valid candidate
  is returned at once, and \<open>None\<close> when the slice is used up.
\<close>

fun candidates_loop :: "(rat \<times> int) list \<Rightarrow> int \<Rightarrow> int \<Rightarrow> error + int option" where
  "candidates_loop [] a n = Inr None"
| "candidates_loop ((phase, cnt) # rest) a n =
     (case limit_denominator phase n of
        Inl e \<Rightarrow> Inl e
      | Inr fr \<Rightarrow>
          (let r = snd (quotient_of fr)
           in if valid_period a n r then Inr (Some r) else candidates_loop rest a n))"

text \<open>The post-processing of \<open>find_period\<close>, from the histogram on.\<close>

definition period_from_counts :: "histogram \<Rightarrow> int \<Rightarrow> int \<Rightarrow> nat \<Rightarrow> error + int option" where
  "period_from_counts counts a n c =
     (case phases_loop counts c [] of
        Inl e \<Rightarrow> Inl e
      | Inr measured_phases \<Rightarrow> candidates_loop (take 5 (sort_phases measured_phases)) a n)"

text \<open>
  The execution backend is outside the program: a function from the circuit and the
  number of shots to the histogram. \<open>find_period\<close> returns, beside its result, the
  number of executions it asked of the backend.
\<close>

type_synonym backend = "circuit \<Rightarrow> int \<Rightarrow> histogram"

definition find_period ::
  "backend \<Rightarrow> int \<Rightarrow> int \<Rightarrow> nat \<Rightarrow> int \<Rightarrow> nat \<times> (error + int option)" where
  "find_period run a n c shots =
     (case create_shors_circuit a n c of
        Inl e \<Rightarrow> (0, Inl e)
      | Inr qc \<Rightarrow> (1, period_from_counts (run qc shots) a n c))"

text \<open>
  The extractor as the specification words it, on the phases in ranked order: the
  denominator of the bounded rational approximation of each of the top five, and the
  first of them that passes the three tests.
\<close>

definition best_denominator :: "rat \<Rightarrow> int \<Rightarrow> int" where
  "best_denominator phase n =
     (case limit_denominator phase n of Inr fr \<Rightarrow> snd (quotient_of fr) | Inl e \<Rightarrow> 0)"

definition key_phase :: "nat \<Rightarrow> string \<times> int \<Rightarrow> rat \<times> int" where
  "key_phase c kv =
     (case int2 (fst kv) of Inr decimal \<Rightarrow> (of_int decimal / 2 ^ c, snd kv) | Inl e \<Rightarrow> (0, snd kv))"

definition period_spec :: "histogram \<Rightarrow> int \<Rightarrow> int \<Rightarrow> nat \<Rightarrow> int option" where
  "period_spec counts a n c =
     find (valid_period a n)
       (map (\<lambda>pc. best_denominator (fst pc) n)
          (take 5 (sort_key (\<lambda>pc. - snd pc) (map (key_phase c) counts))))"

text \<open>
  A histogram the model reads exactly: every key is a non-empty string of binary
  digits whose value is below \<open>2^53\<close>.
\<close>

definition bitstring :: "string \<Rightarrow> bool" where
  "bitstring s \<longleftrightarrow> s \<noteq> [] \<and> list_all (\<lambda>ch. ch = CHR ''0'' \<or> ch = CHR ''1'') s"

definition exact_key :: "string \<Rightarrow> bool" where
  "exact_key s \<longleftrightarrow> bitstring s \<and> (case int2 s of Inr v \<Rightarrow> v < 2 ^ 53 | Inl e \<Rightarrow> False)"

definition exact_histogram :: "histogram \<Rightarrow> bool" where
  "exact_histogram counts \<longleftrightarrow> list_all (\<lambda>kv. exact_key (fst kv)) counts"

section \<open>The orchestrator\<close>

text \<open>
  \<open>shor_algorithm\<close> returns either a pair of integers or one of three strings.
\<close>

datatype result = Factors int int | Message string

definition msg_no_period :: string where
  "msg_no_period = ''Failed to find period, try again.''"

definition msg_odd :: string where
  "msg_odd = ''r is odd, try again with a different a.''"

definition msg_trivial :: string where
  "msg_trivial = ''a^(r/2) mod N = -1, try again with a different a.''"

text \<open>Steps 3 to 6, from the result of \<open>find_period\<close> on.\<close>

definition after_period :: "int \<Rightarrow> int \<Rightarrow> int option \<Rightarrow> result" where
  "after_period a N ro =
     (case ro of
        None \<Rightarrow> Message msg_no_period
      | Some r \<Rightarrow>
          if r mod 2 \<noteq> 0 then Message msg_odd
          else if a ^ nat (r div 2) mod N = N - 1 then Message msg_trivial
          else let factor1 = gcd (a ^ nat (r div 2) - 1) N;
                   factor2 = gcd (a ^ nat (r div 2) + 1) N
               in Factors factor1 factor2)"

text \<open>
  \<open>shor_algorithm(N)\<close>. The base \<open>a\<close> is the value \<open>random.randint(2, N-1)\<close> draws,
  which raises on an empty range; \<open>find_period(a, N)\<close> runs with its defaults of 8
  counting qubits and 1024 shots. The first component of the result counts the
  executions asked of the backend.
\<close>

definition shor_algorithm :: "backend \<Rightarrow> int \<Rightarrow> int \<Rightarrow> nat \<times> (error + result)" where
  "shor_algorithm run a N =
     (if N mod 2 = 0 then (0, Inr (Factors 2 (N div 2)))
      else if N - 1 < 2 then (0, Inl EmptyRange)
      else let factor = gcd a N
           in if factor > 1 then (0, Inr (Factors factor (N div factor)))
              else case find_period run a N 8 1024 of
                     (k, Inl e) \<Rightarrow> (k, Inl e)
                   | (k, Inr ro) \<Rightarrow> (k, Inr (after_period a N ro)))"

text \<open>
  The failure reasons of the specification, the text the program returns for each,
  and the reason, if any, that applies to a result of \<open>find_period\<close>: no period, an
  odd period, or a period with \<open>a^(r/2) mod N = N - 1\<close>, tested in this order.
\<close>

datatype failure_reason = NoPeriodFound | OddPeriod | TrivialPeriod

fun failure_message :: "failure_reason \<Rightarrow> string" where
  "failure_message NoPeriodFound = msg_no_period"
| "failure_message OddPeriod = msg_odd"
| "failure_message TrivialPeriod = msg_trivial"

definition failure_of :: "int \<Rightarrow> int \<Rightarrow> int option \<Rightarrow> failure_reason option" where
  "failure_of a N ro =
     (case ro of
        None \<Rightarrow> Some NoPeriodFound
      | Some r \<Rightarrow>
          if r mod 2 \<noteq> 0 then Some OddPeriod
          else if a ^ nat (r div 2) mod N = N - 1 then Some TrivialPeriod
          else None)"

section \<open>Example inputs\<close>

text \<open>The circuit for base 7 and two counting qubits.\<close>

definition example_circuit :: circuit where
  "example_circuit =
     [HG 0, HG 1, XG 2,
      ControlledG
       [SwapG 2 3, SwapG 1 2, SwapG 0 1, XG 0, XG 1, XG 2, XG 3,
        SwapG 2 3, SwapG 1 2, SwapG 0 1, XG 0, XG 1, XG 2, XG 3]
       [0, 2, 3, 4, 5],
      ControlledG [SwapG 2 3, SwapG 1 2, SwapG 0 1, XG 0, XG 1, XG 2, XG 3]
       [1, 2, 3, 4, 5],
      AppendG [SwapG 0 1, HG 0, CPG (PiTimes (- (1 / 2))) 0 1, HG 1] [0, 1],
      MeasureG 0 0, MeasureG 1 1]"

text \<open>
  A backend whose histogram over eight counting qubits is peaked at the phases
  0, 1/4, 2/4 and 3/4, and one that only ever measures zero.
\<close>

definition peaked_backend :: backend where
  "peaked_backend qc shots =
     [(''00000000'', 260), (''01000000'', 258), (''10000000'', 250), (''11000000'', 256)]"

definition zero_backend :: backend where
  "zero_backend qc shots = [(''00000000'', 1024)]"

section \<open>The oracle rejects unsupported bases\<close>

text \<open>
  C6: for a base outside 2, 4, 7, 8, 11, 13 and any power, \<open>c_amod15\<close> raises the
  unsupported-base error and builds no circuit; for a base in the set it returns a
  circuit.
\<close>

theorem c_amod15_unsupported_base:
  "(a \<notin> {2, 4, 7, 8, 11, 13} \<longrightarrow> c_amod15 a pw = Inl UnsupportedBase)
   \<and> (a \<in> {2, 4, 7, 8, 11, 13} \<longrightarrow> (\<exists>U. c_amod15 a pw = Inr U))"
  by (simp add: c_amod15_def)

theorem c_amod15_unsupported_base_witness:
  "(5::int) \<notin> {2, 4, 7, 8, 11, 13} \<and> c_amod15 5 3 = Inl UnsupportedBase
   \<and> (7::int) \<in> {2, 4, 7, 8, 11, 13} \<and> (\<exists>U. c_amod15 7 3 = Inr U)"
  using c_amod15_unsupported_base [of 5 3] c_amod15_unsupported_base [of 7 3] by simp

section \<open>The inverse Fourier transform, gate by gate\<close>

lemma qft_swaps_eq:
  "qft_swaps n xs qc = qc @ map (\<lambda>i. SwapG i (n - 1 - i)) xs"
  by (induction xs arbitrary: qc) simp_all

lemma cp_angle_small: "k < 1024 \<Longrightarrow> cp_angle k = Inr (PiTimes (- 1 / 2 ^ k))"
proof -
  assume k: "k < 1024"
  have "((2::int) ^ 1024 \<le> 2 ^ k) = (1024 \<le> k)"
    by (rule power_increasing_iff) simp
  with k show ?thesis unfolding cp_angle_def by simp
qed

lemma cp_angle_large: "1024 \<le> k \<Longrightarrow> cp_angle k = Inl OverflowError"
proof -
  assume k: "1024 \<le> k"
  have "((2::int) ^ 1024 \<le> 2 ^ k) = (1024 \<le> k)"
    by (rule power_increasing_iff) simp
  with k show ?thesis unfolding cp_angle_def by simp
qed

lemma qft_inner_eq:
  "\<forall>m \<in> set ms. j - m < 1024 \<Longrightarrow>
   qft_inner j ms qc = Inr (qc @ map (\<lambda>m. CPG (PiTimes (- 1 / 2 ^ (j - m))) m j) ms)"
  by (induction ms arbitrary: qc) (simp_all add: cp_angle_small)

lemma qft_outer_eq:
  "\<forall>j \<in> set js. j < 1024 \<Longrightarrow>
   qft_outer js qc =
     Inr (qc @ concat (map (\<lambda>j. map (\<lambda>m. CPG (PiTimes (- 1 / 2 ^ (j - m))) m j) [0..<j] @ [HG j]) js))"
proof (induction js arbitrary: qc)
  case Nil
  then show ?case by simp
next
  case (Cons j js)
  have "\<forall>m \<in> set [0..<j]. j - m < 1024" using Cons.prems by auto
  then have "qft_inner j [0..<j] qc =
      Inr (qc @ map (\<lambda>m. CPG (PiTimes (- 1 / 2 ^ (j - m))) m j) [0..<j])"
    by (rule qft_inner_eq)
  moreover have "\<forall>j \<in> set js. j < 1024" using Cons.prems by simp
  ultimately show ?case by (simp add: Cons.IH)
qed

lemma qft_outer_append:
  "qft_outer (xs @ ys) qc =
     (case qft_outer xs qc of Inl e \<Rightarrow> Inl e | Inr qc' \<Rightarrow> qft_outer ys qc')"
  by (induction xs arbitrary: qc) (simp_all split: sum.splits)

lemma qft_dagger_ok: "n \<le> 1024 \<Longrightarrow> qft_dagger n = Inr (qft_dagger_spec n)"
  unfolding qft_dagger_def qft_dagger_spec_def
  by (subst qft_outer_eq) (simp_all add: qft_swaps_eq)

lemma qft_outer_overflow:
  assumes "1024 \<le> j"
  shows "qft_outer (j # rest) qc = Inl OverflowError"
proof -
  from assms have "0 < j" by simp
  then have "[0..<j] = 0 # [Suc 0..<j]" by (rule upt_conv_Cons)
  then have "qft_inner j [0..<j] qc = Inl OverflowError"
    using assms by (simp add: cp_angle_large)
  then show ?thesis by simp
qed

lemma qft_dagger_overflow:
  assumes "1025 \<le> n"
  shows "qft_dagger n = Inl OverflowError"
proof -
  have split: "[0..<n] = [0..<1024] @ 1024 # [1025..<n]"
  proof -
    from assms have n: "n = 1024 + (n - 1024)" by simp
    have "[0..<1024 + (n - 1024)] = [0..<1024] @ [1024..<1024 + (n - 1024)]"
      by (rule upt_add_eq_append) simp
    with n have "[0..<n] = [0..<1024] @ [1024..<n]" by simp
    moreover from assms have "1024 < n" by simp
    then have "[1024..<n] = 1024 # [Suc 1024..<n]" by (rule upt_conv_Cons)
    ultimately show ?thesis by simp
  qed
  have "\<forall>j \<in> set [0..<1024]. j < (1024::nat)" by simp
  then obtain qc' where qc': "qft_outer [0..<1024] (qft_swaps n [0..<n div 2] []) = Inr qc'"
    using qft_outer_eq by blast
  have "qft_outer (1024 # [1025..<n]) qc' = Inl OverflowError"
    by (rule qft_outer_overflow) simp
  with qc' show ?thesis
    unfolding qft_dagger_def split qft_outer_append
    by (simp only: sum.case)
qed

text \<open>
  C4, as amended: for every register size \<open>n\<close> up to 1024, \<open>qft_dagger(n)\<close> returns
  the swaps of qubit \<open>i\<close> with qubit \<open>n - 1 - i\<close> for \<open>i < n div 2\<close>, then for each
  qubit \<open>j\<close> ascending the controlled phases of angle \<open>-pi / 2^(j - m)\<close> with control
  \<open>m\<close> and target \<open>j\<close> for \<open>m < j\<close> ascending, followed by the Hadamard on \<open>j\<close>.
\<close>

theorem qft_dagger_structure:
  "n \<le> 1024 \<Longrightarrow> qft_dagger n = Inr (qft_dagger_spec n)"
  by (rule qft_dagger_ok)

theorem qft_dagger_structure_witness:
  "(3::nat) \<le> 1024 \<and>
   qft_dagger 3 =
     Inr [SwapG 0 2, HG 0, CPG (PiTimes (- (1 / 2))) 0 1, HG 1,
          CPG (PiTimes (- (1 / 4))) 0 2, CPG (PiTimes (- (1 / 2))) 1 2, HG 2]"
proof -
  have "qft_dagger_spec 3 =
     [SwapG 0 2, HG 0, CPG (PiTimes (- (1 / 2))) 0 1, HG 1,
      CPG (PiTimes (- (1 / 4))) 0 2, CPG (PiTimes (- (1 / 2))) 1 2, HG 2]"
    by code_simp
  then show ?thesis using qft_dagger_structure [of 3] by simp
qed

text \<open>
  For 1025 qubits the angle of the phase from qubit 0 to qubit 1024 needs
  \<open>float(2**1024)\<close>, which raises: no circuit is returned.
\<close>

theorem qft_dagger_overflow_counterexample:
  "qft_dagger 1025 = Inl OverflowError"
  by (rule qft_dagger_overflow) simp

section \<open>The shortcuts of the orchestrator\<close>

text \<open>
  C7: for every even \<open>N\<close> the orchestrator returns the pair \<open>(2, N div 2)\<close> whatever
  the base and the backend, with no execution asked of the backend; for 14 the pair
  is \<open>(2, 7)\<close>.
\<close>

theorem shor_even_shortcut:
  "(N mod 2 = 0 \<longrightarrow> shor_algorithm run a N = (0, Inr (Factors 2 (N div 2))))
   \<and> shor_algorithm run a 14 = (0, Inr (Factors 2 7))"
  by (simp add: shor_algorithm_def)

theorem shor_even_shortcut_witness:
  "(14::int) mod 2 = 0 \<and> shor_algorithm (\<lambda>qc shots. []) 3 14 = (0, Inr (Factors 2 (14 div 2)))"
  using shor_even_shortcut [of 14 "\<lambda>qc shots. []" 3] by simp

text \<open>
  C8: for every odd \<open>N\<close> and drawn base \<open>a\<close> in \<open>[2, N - 1]\<close> with \<open>gcd(a, N) > 1\<close>,
  the orchestrator returns \<open>(gcd(a, N), N div gcd(a, N))\<close> with no execution asked
  of the backend; for \<open>N = 21\<close> and \<open>a = 3\<close> the pair is \<open>(3, 7)\<close>.
\<close>

theorem shor_gcd_shortcut:
  "(N mod 2 \<noteq> 0 \<and> 2 \<le> a \<and> a \<le> N - 1 \<and> 1 < gcd a N \<longrightarrow>
      shor_algorithm run a N = (0, Inr (Factors (gcd a N) (N div gcd a N))))
   \<and> shor_algorithm run 3 21 = (0, Inr (Factors 3 7))"
proof -
  have g: "gcd (3::int) 21 = 3" by code_simp
  show ?thesis by (simp add: shor_algorithm_def Let_def g)
qed

theorem shor_gcd_shortcut_witness:
  "(21::int) mod 2 \<noteq> 0 \<and> (2::int) \<le> 3 \<and> (3::int) \<le> 21 - 1 \<and> 1 < gcd (3::int) 21
   \<and> shor_algorithm (\<lambda>qc shots. []) 3 21 = (0, Inr (Factors 3 7))"
proof -
  have g: "gcd (3::int) 21 = 3" by code_simp
  show ?thesis using shor_gcd_shortcut [of 21 3 "\<lambda>qc shots. []"] by (simp add: g)
qed

section \<open>The phase-estimation circuit\<close>

lemma h_loop_eq: "h_loop qs qc = qc @ map HG qs"
  by (induction qs arbitrary: qc) simp_all

lemma amod15_loop_eq: "amod15_loop a k U = U @ concat (replicate k (amod15_iteration a))"
  by (induction k arbitrary: U) simp_all

lemma controlled_loop_ok:
  "a \<in> {2, 4, 7, 8, 11, 13} \<Longrightarrow>
   controlled_loop a c qs qc =
     Inr (qc @ map (\<lambda>q. ControlledG (amod15_loop a (2 ^ (c - q - 1)) []) (q # [c..<c + 4])) qs)"
proof (induction qs arbitrary: qc)
  case Nil
  then show ?case by simp
next
  case (Cons q qs)
  have pw: "nat ((2::int) ^ k) = 2 ^ k" for k
    by (simp add: nat_power_eq)
  from Cons.prems have "c_amod15 a (2 ^ (c - q - 1)) = Inr (amod15_loop a (2 ^ (c - q - 1)) [])"
    unfolding c_amod15_def by (simp add: pw)
  then show ?case using Cons.IH [OF Cons.prems] by simp
qed

lemma controlled_loop_bad:
  "a \<notin> {2, 4, 7, 8, 11, 13} \<Longrightarrow> controlled_loop a c (q # qs) qc = Inl UnsupportedBase"
  by (simp add: c_amod15_def)

lemma create_shors_circuit_ok:
  assumes "a \<in> {2, 4, 7, 8, 11, 13}" "c \<le> 1024"
  shows "create_shors_circuit a n c = Inr (shors_circuit_spec a c)"
  unfolding create_shors_circuit_def shors_circuit_spec_def Let_def
  using assms by (simp add: controlled_loop_ok [OF assms(1)] qft_dagger_ok h_loop_eq)

lemma create_shors_circuit_Inr:
  assumes "create_shors_circuit a n c = Inr qc"
  shows "qc = shors_circuit_spec a c \<and> c \<le> 1024 \<and> (a \<in> {2, 4, 7, 8, 11, 13} \<or> c = 0)"
proof -
  have c: "c \<le> 1024"
  proof (rule ccontr)
    assume "\<not> c \<le> 1024"
    then have "qft_dagger c = Inl OverflowError" by (intro qft_dagger_overflow) simp
    with assms show False
      unfolding create_shors_circuit_def Let_def by (simp split: sum.splits)
  qed
  show ?thesis
  proof (cases "a \<in> {2, 4, 7, 8, 11, 13}")
    case True
    with c assms show ?thesis by (simp add: create_shors_circuit_ok)
  next
    case False
    have c0: "c = 0"
    proof (rule ccontr)
      assume "c \<noteq> 0"
      then have "[0..<c] = 0 # [Suc 0..<c]" by (intro upt_conv_Cons) simp
      moreover have "controlled_loop a c (0 # [Suc 0..<c]) (h_loop [0..<c] [] @ [XG c])
          = Inl UnsupportedBase"
        using False by (rule controlled_loop_bad)
      ultimately have "controlled_loop a c [0..<c] (h_loop [0..<c] [] @ [XG c])
          = Inl UnsupportedBase"
        by (simp only:)
      with assms show False
        unfolding create_shors_circuit_def Let_def by simp
    qed
    have "qft_dagger 0 = Inr (qft_dagger_spec 0)" by (rule qft_dagger_ok) simp
    with assms c0 show ?thesis
      unfolding create_shors_circuit_def shors_circuit_spec_def Let_def by simp
  qed
qed


lemma controlled_ops_append:
  "controlled_ops (xs @ ys) = controlled_ops xs @ controlled_ops ys"
  by (induction xs rule: controlled_ops.induct) simp_all

lemma controlled_ops_HG: "controlled_ops (map HG qs) = []"
  by (induction qs) simp_all

lemma controlled_ops_MeasureG: "controlled_ops (map (\<lambda>q. MeasureG q q) qs) = []"
  by (induction qs) simp_all

lemma controlled_ops_ControlledG:
  "controlled_ops (map (\<lambda>q. ControlledG (U q) (q # ts)) qs) = map (\<lambda>q. (q, U q, ts)) qs"
  by (induction qs) simp_all

lemma controlled_ops_spec:
  "controlled_ops (shors_circuit_spec a c) =
     map (\<lambda>q. (q, amod15_loop a (2 ^ (c - q - 1)) [], [c..<c + 4])) [0..<c]"
  unfolding shors_circuit_spec_def
  by (simp add: controlled_ops_append controlled_ops_HG controlled_ops_MeasureG
      controlled_ops_ControlledG)

lemma measured_iteration: "g \<in> set (amod15_iteration a) \<Longrightarrow> measured g = []"
  by (auto simp: amod15_iteration_def)

lemma measured_amod15_loop: "concat (map measured (amod15_loop a k [])) = []"
  by (simp add: amod15_loop_eq measured_iteration)

lemma measured_qft_dagger_spec: "concat (map measured (qft_dagger_spec n)) = []"
  by (simp add: qft_dagger_spec_def)

lemma measured_spec_gates:
  "concat (map measured
     (map HG [0..<c] @ [XG c]
      @ map (\<lambda>q. ControlledG (amod15_loop a (2 ^ (c - q - 1)) []) (q # [c..<c + 4])) [0..<c]
      @ [AppendG (qft_dagger_spec c) [0..<c]])) = []"
  by (simp add: measured_amod15_loop measured_qft_dagger_spec)

lemma measured_measures: "concat (map measured (map (\<lambda>q. MeasureG q q) qs)) = qs"
  by (induction qs) simp_all

text \<open>
  C9: in every circuit \<open>create_shors_circuit\<close> builds for \<open>c\<close> counting qubits, the
  controlled oracle applications are, in order, one per counting qubit \<open>q\<close> of
  \<open>0..c-1\<close>, controlled by \<open>q\<close>, on the four work qubits, with the circuit
  \<open>c_amod15\<close> returns for the power \<open>2^(c - q - 1)\<close>; the qubits measured anywhere
  in the circuit, sub-circuits included, are the counting qubits \<open>0..c-1\<close>, so no work
  qubit; the measurements are the last \<open>c\<close> instructions and nothing before them
  measures. The instructions have no reset among them.
\<close>

theorem shors_circuit_invariant:
  "create_shors_circuit a n c = Inr qc \<Longrightarrow>
     map (\<lambda>(q, U, ts). (q, Inr U, ts)) (controlled_ops qc) =
       map (\<lambda>q. (q, c_amod15 a (2 ^ (c - q - 1)), [c..<c + 4])) [0..<c]
   \<and> concat (map measured qc) = [0..<c]
   \<and> drop (length qc - c) qc = map (\<lambda>q. MeasureG q q) [0..<c]
   \<and> concat (map measured (take (length qc - c) qc)) = []"
proof -
  assume h: "create_shors_circuit a n c = Inr qc"
  from create_shors_circuit_Inr [OF h]
  have qc: "qc = shors_circuit_spec a c"
    and a: "a \<in> {2, 4, 7, 8, 11, 13} \<or> c = 0"
    by simp_all
  define gates where "gates =
     map HG [0..<c] @ [XG c]
      @ map (\<lambda>q. ControlledG (amod15_loop a (2 ^ (c - q - 1)) []) (q # [c..<c + 4])) [0..<c]
      @ [AppendG (qft_dagger_spec c) [0..<c]]"
  define ms where "ms = map (\<lambda>q. MeasureG q q) [0..<c]"
  have split: "qc = gates @ ms"
    unfolding qc shors_circuit_spec_def gates_def ms_def by simp
  have len: "length ms = c" by (simp add: ms_def)
  have g0: "concat (map measured gates) = []"
    unfolding gates_def by (rule measured_spec_gates)
  have m0: "concat (map measured ms) = [0..<c]"
    unfolding ms_def by (rule measured_measures)
  have pw: "nat ((2::int) ^ k) = 2 ^ k" for k
    by (simp add: nat_power_eq)
  have ops: "map (\<lambda>(q, U, ts). (q, Inr U, ts)) (controlled_ops qc) =
       map (\<lambda>q. (q, c_amod15 a (2 ^ (c - q - 1)), [c..<c + 4])) [0..<c]"
  proof (cases "c = 0")
    case True
    then show ?thesis unfolding qc controlled_ops_spec by simp
  next
    case False
    with a have "a \<in> {2, 4, 7, 8, 11, 13}" by simp
    then have "c_amod15 a (2 ^ k) = Inr (amod15_loop a (2 ^ k) [])" for k
      unfolding c_amod15_def by (simp add: pw)
    then show ?thesis unfolding qc controlled_ops_spec by simp
  qed
  have "concat (map measured qc) = [0..<c]"
    unfolding split using g0 m0 by simp
  moreover have "drop (length qc - c) qc = ms"
    unfolding split using len by simp
  moreover have "take (length qc - c) qc = gates"
    unfolding split using len by simp
  ultimately show ?thesis using ops g0 unfolding ms_def by simp
qed

theorem shors_circuit_invariant_witness:
  "create_shors_circuit 7 15 2 = Inr example_circuit
   \<and> map (\<lambda>(q, U, ts). (q, Inr U, ts)) (controlled_ops example_circuit) =
       map (\<lambda>q. (q, c_amod15 7 (2 ^ (2 - q - 1)), [2..<2 + 4])) [0..<2]
   \<and> concat (map measured example_circuit) = [0..<2]
   \<and> drop (length example_circuit - 2) example_circuit = map (\<lambda>q. MeasureG q q) [0..<2]
   \<and> concat (map measured (take (length example_circuit - 2) example_circuit)) = []"
proof -
  have w: "create_shors_circuit 7 15 2 = Inr example_circuit"
    unfolding example_circuit_def by code_simp
  show ?thesis using shors_circuit_invariant [OF w] w by simp
qed

section \<open>The period extractor returns\<close>

text \<open>
  The loop of \<open>limit_denominator\<close> is entered with a fraction in lowest terms whose
  denominator exceeds the bound. It keeps \<open>q1 * n + q0 * d\<close> equal to that
  denominator, so it leaves before \<open>d\<close> reaches zero, and with \<open>q1\<close> positive.
\<close>

declare ld_loop.simps [simp del]

lemma ld_loop_total:
  assumes "1 \<le> mx" "mx < D" "0 \<le> n" "0 \<le> d" "coprime n d" "q1 * n + q0 * d = D"
    "0 \<le> q0" "q0 \<le> mx" "0 \<le> q1" "q1 \<le> mx" "q1 = 0 \<longrightarrow> q0 = 1" "0 < q1 \<longrightarrow> d < n"
  shows "\<exists>p0' q0' p1' q1'. ld_loop mx p0 q0 p1 q1 n d = Inr (p0', q0', p1', q1')
           \<and> 0 < q1' \<and> q1' \<le> mx \<and> 0 \<le> q0' \<and> q0' \<le> mx"
  using assms
proof (induction mx p0 q0 p1 q1 n d rule: ld_loop.induct)
  case (1 mx p0 q0 p1 q1 n d)
  have d0: "d \<noteq> 0"
  proof
    assume "d = 0"
    with "1.prems"(5) have "\<bar>n\<bar> = 1" by simp
    with "1.prems"(3) have "n = 1" by simp
    with \<open>d = 0\<close> "1.prems"(6) have "q1 = D" by simp
    with "1.prems"(2,10) show False by simp
  qed
  with "1.prems"(4) have dpos: "0 < d" by simp
  define a where "a = n div d"
  define q2 where "q2 = q0 + a * q1"
  have a0: "0 \<le> a"
    unfolding a_def using "1.prems"(3) dpos by (simp add: pos_imp_zdiv_nonneg_iff)
  have q2pos: "0 < q2"
  proof (cases "q1 = 0")
    case True
    with "1.prems"(11) show ?thesis by (simp add: q2_def)
  next
    case False
    with "1.prems"(9) have q1: "0 < q1" by simp
    with "1.prems"(12) have "d < n" by simp
    with dpos have "0 < n div d" by (simp add: pos_imp_zdiv_pos_iff)
    then have "1 \<le> a" unfolding a_def by simp
    then have "0 < a" by simp
    then have "0 < a * q1" using q1 by (rule mult_pos_pos)
    with "1.prems"(7) show ?thesis unfolding q2_def by (rule add_nonneg_pos)
  qed
  have unfold: "ld_loop mx p0 q0 p1 q1 n d =
      (if q2 > mx then Inr (p0, q0, p1, q1)
       else ld_loop mx p1 q1 (p0 + a * p1) q2 d (n - a * d))"
    by (subst ld_loop.simps) (simp add: d0 Let_def a_def q2_def)
  show ?case
  proof (cases "q2 > mx")
    case True
    have "0 < q1"
    proof (rule ccontr)
      assume "\<not> 0 < q1"
      with "1.prems"(9) have "q1 = 0" by simp
      with "1.prems"(11) have "q2 = 1" by (simp add: q2_def)
      with True "1.prems"(1) show False by simp
    qed
    moreover have "ld_loop mx p0 q0 p1 q1 n d = Inr (p0, q0, p1, q1)"
      by (simp only: unfold True if_True)
    ultimately show ?thesis using "1.prems"(7,8,10) by simp
  next
    case False
    have md: "n - a * d = n mod d"
      unfolding a_def by (simp add: minus_div_mult_eq_mod)
    have m0: "0 \<le> n mod d" and m1: "n mod d < d"
      using dpos by simp_all
    have cop: "coprime d (n mod d)"
      using "1.prems"(5) d0 by (simp add: coprime_commute)
    have inv: "q2 * d + q1 * (n - a * d) = D"
      using "1.prems"(6) unfolding q2_def by (simp add: algebra_simps)
    have "\<exists>p0' q0' p1' q1'.
        ld_loop mx p1 q1 (p0 + a * p1) q2 d (n - a * d) = Inr (p0', q0', p1', q1')
        \<and> 0 < q1' \<and> q1' \<le> mx \<and> 0 \<le> q0' \<and> q0' \<le> mx"
    proof (rule "1.IH" [OF d0 a_def q2_def False])
      show "1 \<le> mx" "mx < D" by (rule "1.prems")+
      show "0 \<le> d" using dpos by simp
      show "0 \<le> n - a * d" unfolding md by (rule m0)
      show "coprime d (n - a * d)" unfolding md by (rule cop)
      show "q2 * d + q1 * (n - a * d) = D" by (rule inv)
      show "0 \<le> q1" "q1 \<le> mx" by (rule "1.prems")+
      show "0 \<le> q2" using q2pos by simp
      show "q2 \<le> mx" using False by simp
      show "q2 = 0 \<longrightarrow> q1 = 1" using q2pos by simp
      show "0 < q2 \<longrightarrow> n - a * d < d" unfolding md using m1 by simp
    qed
    moreover have "ld_loop mx p0 q0 p1 q1 n d =
        ld_loop mx p1 q1 (p0 + a * p1) q2 d (n - a * d)"
      by (simp only: unfold False if_False)
    ultimately show ?thesis by (simp only:)
  qed
qed

lemma quotient_of_nonneg: "0 \<le> x \<Longrightarrow> 0 \<le> fst (quotient_of x)"
proof -
  assume x: "0 \<le> x"
  have "0 < snd (quotient_of x)" by (rule quotient_of_denom_pos')
  then have "(0 \<le> Fract (fst (quotient_of x)) (snd (quotient_of x)))
      = (0 \<le> fst (quotient_of x))"
    by (rule zero_le_Fract_iff)
  moreover have "0 \<le> Fract (fst (quotient_of x)) (snd (quotient_of x))"
    using x by simp
  ultimately show ?thesis by (simp only:)
qed

lemma limit_denominator_total:
  assumes mx: "1 \<le> mx" and x: "0 \<le> x"
  shows "\<exists>y. limit_denominator x mx = Inr y"
proof (cases "snd (quotient_of x) \<le> mx")
  case True
  with mx show ?thesis by (simp add: limit_denominator_def)
next
  case False
  let ?n = "fst (quotient_of x)" and ?d = "snd (quotient_of x)"
  have "quotient_of x = (?n, ?d)" by simp
  then have cop: "coprime ?n ?d" by (rule quotient_of_coprime)
  have dpos: "0 < ?d" by (rule quotient_of_denom_pos')
  have "\<exists>p0' q0' p1' q1'. ld_loop mx 0 1 1 0 ?n ?d = Inr (p0', q0', p1', q1')
           \<and> 0 < q1' \<and> q1' \<le> mx \<and> 0 \<le> q0' \<and> q0' \<le> mx"
  proof (rule ld_loop_total [where D = ?d])
    show "1 \<le> mx" by (rule mx)
    show "mx < ?d" using False by simp
    show "0 \<le> ?n" using x by (rule quotient_of_nonneg)
    show "0 \<le> ?d" using dpos by simp
    show "coprime ?n ?d" by (rule cop)
    show "0 * ?n + 1 * ?d = ?d" by simp
    show "(0::int) \<le> 1" by simp
    show "1 \<le> mx" by (rule mx)
    show "(0::int) \<le> 0" by simp
    show "0 \<le> mx" using mx by simp
    show "(0::int) = 0 \<longrightarrow> (1::int) = 1" by simp
    show "(0::int) < 0 \<longrightarrow> ?d < ?n" by simp
  qed
  then obtain p0 q0 p1 q1 where
    loop: "ld_loop mx 0 1 1 0 ?n ?d = Inr (p0, q0, p1, q1)"
    and q1: "0 < q1" "q1 \<le> mx" and q0: "0 \<le> q0" "q0 \<le> mx"
    by blast
  define k where "k = (mx - q0) div q1"
  have k0: "0 \<le> k"
    unfolding k_def using q0 q1 by (simp add: pos_imp_zdiv_nonneg_iff)
  have nz: "q0 + k * q1 \<noteq> 0"
  proof (cases "q0 = 0")
    case True
    with q1 have "0 < k" unfolding k_def by (simp add: pos_imp_zdiv_pos_iff)
    then have "0 < k * q1" using q1(1) by (rule mult_pos_pos)
    with True show ?thesis by linarith
  next
    case False
    with q0 have "0 < q0" by simp
    moreover have "0 \<le> k * q1" using k0 q1(1) by simp
    ultimately show ?thesis by linarith
  qed
  from q1 have q1nz: "q1 \<noteq> 0" by simp
  show ?thesis
    using mx False nz q1nz
    by (simp add: limit_denominator_def loop Let_def k_def)
qed

lemma int2_digits_ok:
  "list_all (\<lambda>ch. ch = CHR ''0'' \<or> ch = CHR ''1'') s \<Longrightarrow> 0 \<le> acc \<Longrightarrow>
   \<exists>v. int2_digits s acc = Inr v \<and> 0 \<le> v"
  by (induction s arbitrary: acc) auto

lemma int2_bitstring: "bitstring s \<Longrightarrow> \<exists>v. int2 s = Inr v \<and> 0 \<le> v"
  unfolding bitstring_def int2_def using int2_digits_ok [of s 0] by simp

lemma exact_key_bitstring: "exact_key s \<Longrightarrow> bitstring s"
  by (simp add: exact_key_def)

lemma key_phase_eq:
  assumes "bitstring (fst kv)"
  shows "\<exists>v. int2 (fst kv) = Inr v \<and> 0 \<le> v \<and> key_phase c kv = (of_int v / 2 ^ c, snd kv)"
  using int2_bitstring [OF assms] by (auto simp: key_phase_def)

lemma key_phase_nonneg:
  assumes "bitstring (fst kv)"
  shows "0 \<le> fst (key_phase c kv)"
proof -
  from key_phase_eq [OF assms, of c] obtain v where
    "0 \<le> v" "key_phase c kv = (of_int v / 2 ^ c, snd kv)" by blast
  then show ?thesis by simp
qed

lemma phases_loop_eq:
  "list_all (\<lambda>kv. bitstring (fst kv)) counts \<Longrightarrow>
   phases_loop counts c acc = Inr (acc @ map (key_phase c) counts)"
proof (induction counts arbitrary: acc)
  case Nil
  then show ?case by simp
next
  case (Cons kv counts)
  obtain key cnt where kv: "kv = (key, cnt)" by (cases kv)
  from Cons.prems have b: "bitstring (fst kv)"
    and rest: "list_all (\<lambda>kv. bitstring (fst kv)) counts" by simp_all
  from key_phase_eq [OF b, of c] obtain v where
    v: "int2 key = Inr v" "key_phase c kv = (of_int v / 2 ^ c, cnt)"
    unfolding kv by auto
  show ?case
    unfolding kv using v Cons.IH [OF rest] by (simp add: kv)
qed

lemma candidates_loop_eq:
  assumes n: "1 \<le> n"
  shows "\<forall>pc \<in> set ps. 0 \<le> fst pc \<Longrightarrow>
     candidates_loop ps a n =
       Inr (find (valid_period a n) (map (\<lambda>pc. best_denominator (fst pc) n) ps))"
proof (induction ps)
  case Nil
  then show ?case by simp
next
  case (Cons pc ps)
  obtain phase cnt where pc: "pc = (phase, cnt)" by (cases pc)
  from Cons.prems have ph: "0 \<le> phase" and rest: "\<forall>pc \<in> set ps. 0 \<le> fst pc"
    unfolding pc by simp_all
  from limit_denominator_total [OF n ph] obtain fr where
    fr: "limit_denominator phase n = Inr fr" by blast
  then have bd: "best_denominator phase n = snd (quotient_of fr)"
    by (simp add: best_denominator_def)
  show ?case
    unfolding pc using fr bd Cons.IH [OF rest] by (simp add: Let_def)
qed

lemma period_from_counts_spec:
  assumes h: "exact_histogram counts" and n: "1 \<le> n"
  shows "period_from_counts counts a n c = Inr (period_spec counts a n c)"
proof -
  from h have bits: "list_all (\<lambda>kv. bitstring (fst kv)) counts"
    unfolding exact_histogram_def
    by (simp add: list_all_iff exact_key_bitstring)
  have ph: "phases_loop counts c [] = Inr (map (key_phase c) counts)"
    using phases_loop_eq [OF bits, of c "[]"] by simp
  let ?top = "take 5 (sort_key (\<lambda>pc. - snd pc) (map (key_phase c) counts))"
  have "\<forall>pc \<in> set ?top. 0 \<le> fst pc"
  proof
    fix pc assume "pc \<in> set ?top"
    then have "pc \<in> set (sort_key (\<lambda>pc. - snd pc) (map (key_phase c) counts))"
      by (rule in_set_takeD)
    then obtain kv where "kv \<in> set counts" "pc = key_phase c kv" by auto
    moreover from this bits have "bitstring (fst kv)" by (simp add: list_all_iff)
    ultimately show "0 \<le> fst pc" by (simp add: key_phase_nonneg)
  qed
  then have "candidates_loop ?top a n =
      Inr (find (valid_period a n) (map (\<lambda>pc. best_denominator (fst pc) n) ?top))"
    by (rule candidates_loop_eq [OF n])
  then show ?thesis
    by (simp add: period_from_counts_def ph sort_phases_def period_spec_def)
qed






section \<open>The orchestrator after the period\<close>

lemma candidates_loop_valid:
  "candidates_loop ps a n = Inr (Some r) \<Longrightarrow> valid_period a n r"
proof (induction ps)
  case Nil
  then show ?case by simp
next
  case (Cons pc ps)
  obtain phase cnt where pc: "pc = (phase, cnt)" by (cases pc)
  show ?case
  proof (cases "limit_denominator phase n")
    case (Inl e)
    with Cons.prems pc show ?thesis by simp
  next
    case (Inr fr)
    show ?thesis
    proof (cases "valid_period a n (snd (quotient_of fr))")
      case True
      with Cons.prems pc Inr show ?thesis by simp
    next
      case False
      with Cons.prems pc Inr have "candidates_loop ps a n = Inr (Some r)" by simp
      then show ?thesis by (rule Cons.IH)
    qed
  qed
qed
lemma period_from_counts_valid:
  "period_from_counts counts a n c = Inr (Some r) \<Longrightarrow> valid_period a n r"
  unfolding period_from_counts_def
  by (auto split: sum.splits dest: candidates_loop_valid)

lemma find_period_valid:
  "find_period run a n c shots = (k, Inr (Some r)) \<Longrightarrow> valid_period a n r"
  unfolding find_period_def
  by (auto split: sum.splits dest: period_from_counts_valid)

lemma shor_algorithm_quantum:
  assumes "N mod 2 \<noteq> 0" "2 \<le> N - 1" "gcd a N \<le> 1"
  shows "shor_algorithm run a N =
     (case find_period run a N 8 1024 of
        (k, Inl e) \<Rightarrow> (k, Inl e)
      | (k, Inr ro) \<Rightarrow> (k, Inr (after_period a N ro)))"
  using assms by (simp add: shor_algorithm_def Let_def)

lemma find_period_run:
  "create_shors_circuit a n c = Inr qc \<Longrightarrow>
   find_period run a n c shots = (1, period_from_counts (run qc shots) a n c)"
  by (simp add: find_period_def)

lemma find_period_peaked: "find_period peaked_backend 7 15 8 1024 = (1, Inr (Some 4))"
proof -
  have "create_shors_circuit 7 15 8 = Inr (shors_circuit_spec 7 8)"
    by (rule create_shors_circuit_ok) simp_all
  then have "find_period peaked_backend 7 15 8 1024 =
      (1, period_from_counts (peaked_backend (shors_circuit_spec 7 8) 1024) 7 15 8)"
    by (rule find_period_run)
  moreover have "period_from_counts
      [(''00000000'', 260), (''01000000'', 258), (''10000000'', 250), (''11000000'', 256)]
      7 15 8 = Inr (Some 4)"
    by code_simp
  ultimately show ?thesis by (simp add: peaked_backend_def)
qed

lemma find_period_zero: "find_period zero_backend 7 15 8 1024 = (1, Inr None)"
proof -
  have "create_shors_circuit 7 15 8 = Inr (shors_circuit_spec 7 8)"
    by (rule create_shors_circuit_ok) simp_all
  then have "find_period zero_backend 7 15 8 1024 =
      (1, period_from_counts (zero_backend (shors_circuit_spec 7 8) 1024) 7 15 8)"
    by (rule find_period_run)
  moreover have "period_from_counts [(''00000000'', 1024)] 7 15 8 = Inr None"
    by code_simp
  ultimately show ?thesis by (simp add: zero_backend_def)
qed

lemma gcd_7_15: "gcd (7::int) 15 = 1" "gcd (48::int) 15 = 3" "gcd (50::int) 15 = 5"
  by code_simp+

text \<open>
  C3: when the run passes the shortcuts (\<open>N\<close> odd, a base drawn from a non-empty
  range and coprime to \<open>N\<close>) and \<open>find_period\<close> returns a period \<open>r\<close>, the
  orchestrator returns the pair \<open>(gcd(a^(r div 2) - 1, N), gcd(a^(r div 2) + 1, N))\<close>;
  for \<open>N = 15\<close>, \<open>a = 7\<close>, \<open>r = 4\<close> the pair is \<open>(3, 5)\<close>.
\<close>

theorem shor_factor_computation:
  "(N mod 2 \<noteq> 0 \<and> 2 \<le> N - 1 \<and> gcd a N \<le> 1 \<and> find_period run a N 8 1024 = (k, Inr (Some r))
    \<longrightarrow> shor_algorithm run a N =
        (k, Inr (Factors (gcd (a ^ nat (r div 2) - 1) N) (gcd (a ^ nat (r div 2) + 1) N))))
  \<and> (find_period run 7 15 8 1024 = (k, Inr (Some 4)) \<longrightarrow> shor_algorithm run 7 15 = (k, Inr (Factors 3 5)))"
proof (intro conjI impI)
  assume h: "N mod 2 \<noteq> 0 \<and> 2 \<le> N - 1 \<and> gcd a N \<le> 1 \<and> find_period run a N 8 1024 = (k, Inr (Some r))"
  then have v: "valid_period a N r" by (auto dest: find_period_valid)
  from h have "shor_algorithm run a N = (k, Inr (after_period a N (Some r)))"
    by (simp add: shor_algorithm_quantum)
  with v show "shor_algorithm run a N =
        (k, Inr (Factors (gcd (a ^ nat (r div 2) - 1) N) (gcd (a ^ nat (r div 2) + 1) N)))"
    by (simp add: after_period_def valid_period_def Let_def)
next
  assume h: "find_period run 7 15 8 1024 = (k, Inr (Some 4))"
  have g: "gcd (7::int) 15 = 1" "gcd (48::int) 15 = 3" "gcd (50::int) 15 = 5"
    by code_simp+
  have "shor_algorithm run 7 15 = (k, Inr (after_period 7 15 (Some 4)))"
    using h by (simp add: shor_algorithm_quantum g)
  then show "shor_algorithm run 7 15 = (k, Inr (Factors 3 5))"
    by (simp add: after_period_def Let_def g)
qed

theorem shor_factor_computation_witness:
  "((15::int) mod 2 \<noteq> 0 \<and> (2::int) \<le> 15 - 1 \<and> gcd (7::int) 15 \<le> 1
     \<and> find_period peaked_backend 7 15 8 1024 = (1, Inr (Some 4)))
   \<and> shor_algorithm peaked_backend 7 15 = (1, Inr (Factors 3 5))"
  using shor_factor_computation [of 15 7 peaked_backend 1 4] find_period_peaked gcd_7_15
  by simp

lemma exact_zero_backend: "exact_histogram (zero_backend qc shots)"
proof -
  have "exact_histogram [(''00000000'', 1024)]" by code_simp
  then show ?thesis by (simp add: zero_backend_def)
qed

lemma shor_algorithm_returns:
  assumes N: "N mod 2 \<noteq> 0" "2 \<le> N - 1" "gcd a N \<le> 1"
    and a: "a \<in> {2, 4, 7, 8, 11, 13}"
    and run: "\<forall>qc shots. exact_histogram (run qc shots)"
  shows "\<exists>ro. find_period run a N 8 1024 = (1, Inr ro)
            \<and> shor_algorithm run a N = (1, Inr (after_period a N ro))"
proof -
  let ?qc = "shors_circuit_spec a 8"
  have "create_shors_circuit a N 8 = Inr ?qc"
    using a by (rule create_shors_circuit_ok) simp
  then have fp: "find_period run a N 8 1024 = (1, period_from_counts (run ?qc 1024) a N 8)"
    by (rule find_period_run)
  from run have "exact_histogram (run ?qc 1024)" by simp
  moreover from N(2) have "1 \<le> N" by simp
  ultimately have "period_from_counts (run ?qc 1024) a N 8 =
      Inr (period_spec (run ?qc 1024) a N 8)"
    by (rule period_from_counts_spec)
  with fp have f: "find_period run a N 8 1024 = (1, Inr (period_spec (run ?qc 1024) a N 8))"
    by simp
  then have "shor_algorithm run a N =
      (1, Inr (after_period a N (period_spec (run ?qc 1024) a N 8)))"
    by (simp add: shor_algorithm_quantum [OF N])
  with f show ?thesis by blast
qed

text \<open>
  C5: each of the three failure reasons (no period, an odd period, a period with
  \<open>a^(r/2) mod N = N - 1\<close>), applied to any result of the period search, makes steps
  3 to 6 of the orchestrator return the text of that reason as a value. And a run
  that passes the shortcuts with a supported base, on a backend whose histograms
  are well-formed, raises nothing: the entry point returns what these steps return
  for the result of the period search.
\<close>

theorem shor_failure_values:
  "(failure_of a N ro = Some t \<longrightarrow> after_period a N ro = Message (failure_message t))
   \<and> (N' mod 2 \<noteq> 0 \<and> 2 \<le> N' - 1 \<and> gcd a' N' \<le> 1 \<and> a' \<in> {2, 4, 7, 8, 11, 13}
        \<and> (\<forall>qc shots. exact_histogram (run qc shots))
      \<longrightarrow> (\<exists>ro'. find_period run a' N' 8 1024 = (1, Inr ro')
              \<and> shor_algorithm run a' N' = (1, Inr (after_period a' N' ro'))))"
proof (intro conjI impI)
  assume "failure_of a N ro = Some t"
  then show "after_period a N ro = Message (failure_message t)"
    by (cases ro) (auto simp: failure_of_def after_period_def split: if_splits)
next
  assume h: "N' mod 2 \<noteq> 0 \<and> 2 \<le> N' - 1 \<and> gcd a' N' \<le> 1 \<and> a' \<in> {2, 4, 7, 8, 11, 13}
        \<and> (\<forall>qc shots. exact_histogram (run qc shots))"
  then show "\<exists>ro'. find_period run a' N' 8 1024 = (1, Inr ro')
              \<and> shor_algorithm run a' N' = (1, Inr (after_period a' N' ro'))"
    by (intro shor_algorithm_returns) simp_all
qed

theorem shor_failure_values_witness:
  "(failure_of 7 15 None = Some NoPeriodFound
      \<and> after_period 7 15 None = Message ''Failed to find period, try again.'')
   \<and> (failure_of 7 15 (Some 3) = Some OddPeriod
      \<and> after_period 7 15 (Some 3) = Message ''r is odd, try again with a different a.'')
   \<and> (failure_of 14 15 (Some 2) = Some TrivialPeriod
      \<and> after_period 14 15 (Some 2) =
          Message ''a^(r/2) mod N = -1, try again with a different a.'')
   \<and> ((15::int) mod 2 \<noteq> 0 \<and> (2::int) \<le> 15 - 1 \<and> gcd (7::int) 15 \<le> 1
      \<and> (7::int) \<in> {2, 4, 7, 8, 11, 13})
   \<and> find_period zero_backend 7 15 8 1024 = (1, Inr None)
   \<and> shor_algorithm zero_backend 7 15 = (1, Inr (Message ''Failed to find period, try again.''))"
proof -
  have f1: "failure_of 7 15 None = Some NoPeriodFound"
    and f2: "failure_of 7 15 (Some 3) = Some OddPeriod"
    and f3: "failure_of 14 15 (Some 2) = Some TrivialPeriod"
    by (simp_all add: failure_of_def)
  have a1: "after_period 7 15 None = Message (failure_message NoPeriodFound)"
    using shor_failure_values [of 7 15 None NoPeriodFound] f1 by blast
  have a2: "after_period 7 15 (Some 3) = Message (failure_message OddPeriod)"
    using shor_failure_values [of 7 15 "Some 3" OddPeriod] f2 by blast
  have a3: "after_period 14 15 (Some 2) = Message (failure_message TrivialPeriod)"
    using shor_failure_values [of 14 15 "Some 2" TrivialPeriod] f3 by blast
  have h: "(15::int) mod 2 \<noteq> 0 \<and> (2::int) \<le> 15 - 1 \<and> gcd (7::int) 15 \<le> 1
      \<and> (7::int) \<in> {2, 4, 7, 8, 11, 13}
      \<and> (\<forall>qc shots. exact_histogram (zero_backend qc shots))"
    by (simp add: gcd_7_15 exact_zero_backend)
  from shor_failure_values [of _ _ _ _ 15 7 zero_backend, THEN conjunct2, THEN mp, OF h]
  obtain ro' where r: "find_period zero_backend 7 15 8 1024 = (1, Inr ro')"
    and s: "shor_algorithm zero_backend 7 15 = (1, Inr (after_period 7 15 ro'))"
    by blast
  from r find_period_zero have "ro' = None" by simp
  with s a1 have "shor_algorithm zero_backend 7 15 = (1, Inr (Message msg_no_period))"
    by simp
  with f1 f2 f3 a1 a2 a3 h find_period_zero show ?thesis
    by (simp add: msg_no_period_def msg_odd_def msg_trivial_def)
qed

text \<open>
  C10: a period \<open>r\<close> returned by \<open>find_period\<close> is even and has
  \<open>a^(r div 2) mod N \<noteq> N - 1\<close>; so whenever the orchestrator returns a text, it is
  the no-period one: the odd-period and trivial-period returns are never taken.
\<close>

theorem find_period_prevalidated:
  "(find_period run a N c shots = (k, Inr (Some r)) \<longrightarrow>
      r mod 2 = 0 \<and> a ^ nat (r div 2) mod N \<noteq> N - 1)
   \<and> (shor_algorithm run' a' N' = (k', Inr (Message s)) \<longrightarrow> s = msg_no_period)"
proof (intro conjI impI)
  assume "find_period run a N c shots = (k, Inr (Some r))"
  then have "valid_period a N r" by (rule find_period_valid)
  then show "r mod 2 = 0" and "a ^ nat (r div 2) mod N \<noteq> N - 1"
    by (simp_all add: valid_period_def)
next
  assume h: "shor_algorithm run' a' N' = (k', Inr (Message s))"
  show "s = msg_no_period"
  proof (cases "find_period run' a' N' 8 1024")
    case (Pair k2 res)
    show ?thesis
    proof (cases res)
      case (Inl e)
      with h Pair show ?thesis
        by (auto simp: shor_algorithm_def Let_def split: if_splits)
    next
      case (Inr ro)
      show ?thesis
      proof (cases ro)
        case None
        with h Pair Inr show ?thesis
          by (auto simp: shor_algorithm_def Let_def after_period_def split: if_splits)
      next
        case (Some r')
        with Pair Inr have "valid_period a' N' r'" by (auto dest: find_period_valid)
        with h Pair Inr Some show ?thesis
          by (auto simp: shor_algorithm_def Let_def after_period_def valid_period_def split: if_splits)
      qed
    qed
  qed
qed


theorem find_period_prevalidated_witness:
  "find_period peaked_backend 7 15 8 1024 = (1, Inr (Some 4))
   \<and> (4::int) mod 2 = 0 \<and> (7::int) ^ nat (4 div 2) mod 15 \<noteq> 15 - 1
   \<and> shor_algorithm zero_backend 7 15 = (1, Inr (Message msg_no_period))"
proof -
  have z: "shor_algorithm zero_backend 7 15 = (1, Inr (Message msg_no_period))"
    using find_period_zero
    by (simp add: shor_algorithm_quantum gcd_7_15 after_period_def)
  show ?thesis
    using find_period_prevalidated [of peaked_backend 7 15 8 1024 1 4 zero_backend 7 15 1 msg_no_period]
      find_period_peaked z
    by simp
qed

section \<open>The period extractor, from the histogram to the period\<close>





section \<open>The oracle as a permutation of basis states\<close>

lemma upt_0_4: "[0..<4] = [0, 1, 2, 3]"
  by (simp add: upt_rec)

lemma run_iteration_2: "run_basis (amod15_iteration 2) [b0, b1, b2, b3] = Some [b1, b2, b3, b0]"
  by (simp add: amod15_iteration_def)

lemma run_iteration_8: "run_basis (amod15_iteration 8) [b0, b1, b2, b3] = Some [b3, b0, b1, b2]"
  by (simp add: amod15_iteration_def)

lemma run_iteration_4: "run_basis (amod15_iteration 4) [b0, b1, b2, b3] = Some [b2, b3, b0, b1]"
  by (simp add: amod15_iteration_def)

lemma run_iteration_13:
  "run_basis (amod15_iteration 13) [b0, b1, b2, b3] = Some [\<not> b1, \<not> b2, \<not> b3, \<not> b0]"
  by (simp add: amod15_iteration_def upt_0_4)

lemma run_iteration_7:
  "run_basis (amod15_iteration 7) [b0, b1, b2, b3] = Some [\<not> b3, \<not> b0, \<not> b1, \<not> b2]"
  by (simp add: amod15_iteration_def upt_0_4)

lemma run_iteration_11:
  "run_basis (amod15_iteration 11) [b0, b1, b2, b3] = Some [\<not> b2, \<not> b3, \<not> b0, \<not> b1]"
  by (simp add: amod15_iteration_def upt_0_4)

lemmas run_iteration_closed =
  run_iteration_2 run_iteration_4 run_iteration_7 run_iteration_8 run_iteration_11
  run_iteration_13

lemma iteration_bits_closed:
  "iteration_bits 2 [b0, b1, b2, b3] = [b1, b2, b3, b0]"
  "iteration_bits 4 [b0, b1, b2, b3] = [b2, b3, b0, b1]"
  "iteration_bits 7 [b0, b1, b2, b3] = [\<not> b3, \<not> b0, \<not> b1, \<not> b2]"
  "iteration_bits 8 [b0, b1, b2, b3] = [b3, b0, b1, b2]"
  "iteration_bits 11 [b0, b1, b2, b3] = [\<not> b2, \<not> b3, \<not> b0, \<not> b1]"
  "iteration_bits 13 [b0, b1, b2, b3] = [\<not> b1, \<not> b2, \<not> b3, \<not> b0]"
  unfolding iteration_bits_def by (simp_all only: run_iteration_closed option.case)

lemma length4: "length s = 4 \<Longrightarrow> \<exists>b0 b1 b2 b3. s = [b0, b1, b2, b3]"
  by (auto simp: length_Suc_conv eval_nat_numeral)

lemma run_iteration:
  assumes "a \<in> {2, 4, 7, 8, 11, 13}" "length s = 4"
  shows "run_basis (amod15_iteration a) s = Some (iteration_bits a s)
         \<and> length (iteration_bits a s) = 4"
proof -
  from assms(2) obtain b0 b1 b2 b3 where s: "s = [b0, b1, b2, b3]"
    using length4 by blast
  from assms(1) consider "a = 2" | "a = 4" | "a = 7" | "a = 8" | "a = 11" | "a = 13"
    by auto
  then show ?thesis
    unfolding s
    by cases (simp_all only: run_iteration_closed iteration_bits_closed, simp_all)
qed

lemma run_basis_append:
  "run_basis (xs @ ys) s =
     (case run_basis xs s of None \<Rightarrow> None | Some s' \<Rightarrow> run_basis ys s')"
  by (induction xs arbitrary: s) (simp_all split: option.splits)

lemma funpow_length4:
  assumes "a \<in> {2, 4, 7, 8, 11, 13}" "length s = 4"
  shows "length ((iteration_bits a ^^ k) s) = 4"
  using assms by (induction k) (simp_all add: run_iteration)

lemma run_replicate:
  assumes "a \<in> {2, 4, 7, 8, 11, 13}" "length s = 4"
  shows "run_basis (concat (replicate k (amod15_iteration a))) s = Some ((iteration_bits a ^^ k) s)"
  using assms(2)
proof (induction k arbitrary: s)
  case 0
  then show ?case by simp
next
  case (Suc k)
  from run_iteration [OF assms(1) Suc.prems]
  have r: "run_basis (amod15_iteration a) s = Some (iteration_bits a s)"
    and l: "length (iteration_bits a s) = 4" by simp_all
  show ?case
    by (simp add: run_basis_append r Suc.IH [OF l] funpow_swap1)
qed

lemma basis_state_length: "length (basis_state w x) = w"
  by (induction w arbitrary: x) simp_all

lemma basis_state_4:
  "basis_state 4 x = [odd x, odd (x div 2), odd (x div 2 div 2), odd (x div 2 div 2 div 2)]"
proof -
  have "(4::nat) = Suc (Suc (Suc (Suc 0)))" by simp
  then show ?thesis by (simp only: basis_state.simps)
qed

lemma basis_state_value:
  "length s = 4 \<Longrightarrow> basis_state 4 (basis_value s) = s"
proof -
  assume "length s = 4"
  then obtain b0 b1 b2 b3 where s: "s = [b0, b1, b2, b3]"
    using length4 by blast
  show ?thesis unfolding s basis_state_4
    by (cases b0; cases b1; cases b2; cases b3) simp_all
qed

lemma basis_value_bound: "length s = 4 \<Longrightarrow> basis_value s < 16"
proof -
  assume "length s = 4"
  then obtain b0 b1 b2 b3 where s: "s = [b0, b1, b2, b3]"
    using length4 by blast
  show ?thesis unfolding s by simp
qed

lemma basis_value_state_all:
  "list_all (\<lambda>x. basis_value (basis_state 4 x) = x) [0..<16]"
  by code_simp

lemma basis_value_state: "x < 16 \<Longrightarrow> basis_value (basis_state 4 x) = x"
  using basis_value_state_all by (simp add: list_all_iff)

lemma oracle_action_bits:
  assumes "a \<in> {2, 4, 7, 8, 11, 13}"
  shows "oracle_action a pw x =
     Inr (Some (basis_value ((iteration_bits a ^^ nat pw) (basis_state 4 x))))"
  using assms
  by (simp add: oracle_action_def c_amod15_def amod15_loop_eq run_replicate [OF assms]
      basis_state_length)

lemma oracle_perm_bits:
  assumes "a \<in> {2, 4, 7, 8, 11, 13}"
  shows "oracle_perm a x = basis_value (iteration_bits a (basis_state 4 x))"
  by (simp add: oracle_perm_def oracle_action_bits [OF assms])

lemma oracle_perm_funpow:
  assumes "a \<in> {2, 4, 7, 8, 11, 13}"
  shows "basis_value ((iteration_bits a ^^ k) (basis_state 4 x)) =
         (oracle_perm a ^^ k) (basis_value (basis_state 4 x))"
proof (induction k)
  case 0
  then show ?case by simp
next
  case (Suc k)
  let ?s = "(iteration_bits a ^^ k) (basis_state 4 x)"
  have l: "length ?s = 4"
    by (rule funpow_length4 [OF assms]) (simp add: basis_state_length)
  have "(oracle_perm a ^^ Suc k) (basis_value (basis_state 4 x)) =
        oracle_perm a ((oracle_perm a ^^ k) (basis_value (basis_state 4 x)))"
    by simp
  also have "\<dots> = oracle_perm a (basis_value ?s)"
    by (simp only: Suc.IH)
  also have "\<dots> = basis_value (iteration_bits a (basis_state 4 (basis_value ?s)))"
    by (rule oracle_perm_bits [OF assms])
  also have "\<dots> = basis_value (iteration_bits a ?s)"
    by (simp only: basis_state_value [OF l])
  finally show ?case by simp
qed

lemma oracle_action_funpow:
  assumes "a \<in> {2, 4, 7, 8, 11, 13}" "x < 16"
  shows "oracle_action a pw x = Inr (Some ((oracle_perm a ^^ nat pw) x))"
  by (simp add: oracle_action_bits [OF assms(1)] oracle_perm_funpow [OF assms(1)]
      basis_value_state [OF assms(2)])

lemma oracle_funpow_bound:
  assumes "a \<in> {2, 4, 7, 8, 11, 13}" "x < 16"
  shows "(oracle_perm a ^^ k) x < 16"
proof -
  have "length ((iteration_bits a ^^ k) (basis_state 4 x)) = 4"
    by (rule funpow_length4 [OF assms(1)]) (simp add: basis_state_length)
  then have "basis_value ((iteration_bits a ^^ k) (basis_state 4 x)) < 16"
    by (rule basis_value_bound)
  then show ?thesis
    by (simp add: oracle_perm_funpow [OF assms(1)] basis_value_state [OF assms(2)])
qed

text \<open>Four passes of any supported base restore every state.\<close>

lemma iteration_bits_four:
  assumes "a \<in> {2, 4, 7, 8, 11, 13}" "length s = 4"
  shows "(iteration_bits a ^^ 4) s = s"
proof -
  from assms(2) obtain b0 b1 b2 b3 where s: "s = [b0, b1, b2, b3]"
    using length4 by blast
  have four: "(f ^^ 4) z = f (f (f (f z)))" for f :: "bool list \<Rightarrow> bool list" and z
    by (simp add: eval_nat_numeral)
  from assms(1) consider "a = 2" | "a = 4" | "a = 7" | "a = 8" | "a = 11" | "a = 13"
    by auto
  then show ?thesis
    unfolding s four by cases (simp_all add: iteration_bits_closed)
qed

lemma iteration_bits_two:
  assumes "a \<in> {4, 11}" "length s = 4"
  shows "(iteration_bits a ^^ 2) s = s"
proof -
  from assms(2) obtain b0 b1 b2 b3 where s: "s = [b0, b1, b2, b3]"
    using length4 by blast
  have two: "(f ^^ 2) z = f (f z)" for f :: "bool list \<Rightarrow> bool list" and z
    by (simp add: eval_nat_numeral)
  from assms(1) consider "a = 4" | "a = 11"
    by auto
  then show ?thesis
    unfolding s two by cases (simp_all add: iteration_bits_closed)
qed

lemma mult_order_15:
  "mult_order 2 15 = 4" "mult_order 4 15 = 2" "mult_order 7 15 = 4"
  "mult_order 8 15 = 4" "mult_order 11 15 = 2" "mult_order 13 15 = 4"
  by code_simp+

lemma iteration_bits_order:
  assumes "a \<in> {2, 4, 7, 8, 11, 13}" "length s = 4"
  shows "(iteration_bits a ^^ mult_order a 15) s = s"
proof -
  from assms(1) consider "a \<in> {4, 11}" | "a \<in> {2, 7, 8, 13}"
    by auto
  then show ?thesis
  proof cases
    case 1
    then have "mult_order a 15 = 2" by (auto simp: mult_order_15)
    with iteration_bits_two [OF 1 assms(2)] show ?thesis by simp
  next
    case 2
    then have "mult_order a 15 = 4" by (auto simp: mult_order_15)
    with iteration_bits_four [OF assms] show ?thesis by simp
  qed
qed

lemma step_mult_4:
  assumes "length s = 4" "1 \<le> basis_value s" "basis_value s \<le> 14"
  shows "length (iteration_bits 4 s) = 4
       \<and> basis_value (iteration_bits 4 s) = nat (4 * int (basis_value s) mod 15)
       \<and> 1 \<le> basis_value (iteration_bits 4 s) \<and> basis_value (iteration_bits 4 s) \<le> 14"
proof -
  from assms(1) obtain b0 b1 b2 b3 where s: "s = [b0, b1, b2, b3]"
    using length4 by blast
  show ?thesis using assms(2,3) unfolding s iteration_bits_closed
    by (cases b0; cases b1; cases b2; cases b3) simp_all
qed

lemma step_mult_11:
  assumes "length s = 4" "1 \<le> basis_value s" "basis_value s \<le> 14"
  shows "length (iteration_bits 11 s) = 4
       \<and> basis_value (iteration_bits 11 s) = nat (11 * int (basis_value s) mod 15)
       \<and> 1 \<le> basis_value (iteration_bits 11 s) \<and> basis_value (iteration_bits 11 s) \<le> 14"
proof -
  from assms(1) obtain b0 b1 b2 b3 where s: "s = [b0, b1, b2, b3]"
    using length4 by blast
  show ?thesis using assms(2,3) unfolding s iteration_bits_closed
    by (cases b0; cases b1; cases b2; cases b3) simp_all
qed

lemma iteration_twice:
  assumes "a \<in> {2, 7, 8, 13}" "length s = 4"
  shows "iteration_bits a (iteration_bits a s) = iteration_bits 4 s"
proof -
  from assms(2) obtain b0 b1 b2 b3 where s: "s = [b0, b1, b2, b3]"
    using length4 by blast
  from assms(1) consider "a = 2" | "a = 7" | "a = 8" | "a = 13"
    by auto
  then show ?thesis
    unfolding s by cases (simp_all add: iteration_bits_closed)
qed

lemma funpow_mult_scheme:
  fixes G :: "bool list \<Rightarrow> bool list" and m :: int
  assumes step: "\<And>s. length s = 4 \<Longrightarrow> 1 \<le> basis_value s \<Longrightarrow> basis_value s \<le> 14 \<Longrightarrow>
       length (G s) = 4 \<and> basis_value (G s) = nat (m * int (basis_value s) mod 15)
       \<and> 1 \<le> basis_value (G s) \<and> basis_value (G s) \<le> 14"
    and s: "length s = 4" "1 \<le> basis_value s" "basis_value s \<le> 14"
  shows "length ((G ^^ k) s) = 4
       \<and> basis_value ((G ^^ k) s) = nat (m ^ k * int (basis_value s) mod 15)
       \<and> 1 \<le> basis_value ((G ^^ k) s) \<and> basis_value ((G ^^ k) s) \<le> 14"
proof (induction k)
  case 0
  from s show ?case by simp
next
  case (Suc k)
  let ?t = "(G ^^ k) s"
  from Suc.IH have t: "length ?t = 4" "1 \<le> basis_value ?t" "basis_value ?t \<le> 14"
    and v: "basis_value ?t = nat (m ^ k * int (basis_value s) mod 15)"
    by simp_all
  from step [OF t]
  have g: "length (G ?t) = 4" "1 \<le> basis_value (G ?t)" "basis_value (G ?t) \<le> 14"
    and gv: "basis_value (G ?t) = nat (m * int (basis_value ?t) mod 15)"
    by simp_all
  have "int (basis_value ?t) = m ^ k * int (basis_value s) mod 15"
    unfolding v by simp
  then have "m * int (basis_value ?t) mod 15 = m * (m ^ k * int (basis_value s) mod 15) mod 15"
    by simp
  also have "\<dots> = m * (m ^ k * int (basis_value s)) mod 15"
    by (rule mod_mult_right_eq)
  also have "\<dots> = m ^ Suc k * int (basis_value s) mod 15"
    by (simp add: mult.assoc)
  finally have "basis_value (G ?t) = nat (m ^ Suc k * int (basis_value s) mod 15)"
    using gv by simp
  with g show ?case by simp
qed

lemma square_mod_15:
  assumes "a \<in> {2, 7, 8, 13}"
  shows "(a::int) ^ (2 * k) * y mod 15 = 4 ^ k * y mod 15"
proof -
  from assms have sq: "a ^ 2 mod 15 = 4" by auto
  have "a ^ (2 * k) mod 15 = (a ^ 2) ^ k mod 15"
    by (simp add: power_mult)
  also have "\<dots> = (a ^ 2 mod 15) ^ k mod 15"
    by (rule power_mod [symmetric])
  finally have "a ^ (2 * k) mod 15 = 4 ^ k mod 15"
    unfolding sq .
  then show ?thesis
    by (metis mod_mult_left_eq)
qed

lemma bits_mult:
  assumes a: "a \<in> {2, 4, 7, 8, 11, 13}"
    and s: "length s = 4" "1 \<le> basis_value s" "basis_value s \<le> 14"
    and p: "a \<in> {4, 11} \<or> even k"
  shows "basis_value ((iteration_bits a ^^ k) s) = nat (a ^ k * int (basis_value s) mod 15)"
proof (cases "a \<in> {4, 11}")
  case True
  then consider "a = 4" | "a = 11" by auto
  then show ?thesis
  proof cases
    case 1
    show ?thesis unfolding 1
      using funpow_mult_scheme [of "iteration_bits 4" 4 s k, OF step_mult_4 s] by simp
  next
    case 2
    show ?thesis unfolding 2
      using funpow_mult_scheme [of "iteration_bits 11" 11 s k, OF step_mult_11 s] by simp
  qed
next
  case False
  with a p have a': "a \<in> {2, 7, 8, 13}" and "even k" by auto
  then obtain j where k: "k = 2 * j" by (auto elim: evenE)
  let ?G = "\<lambda>s. iteration_bits a (iteration_bits a s)"
  have G: "iteration_bits a ^^ 2 = ?G"
    by (auto simp: eval_nat_numeral)
  have step: "length t = 4 \<Longrightarrow> 1 \<le> basis_value t \<Longrightarrow> basis_value t \<le> 14 \<Longrightarrow>
       length (?G t) = 4 \<and> basis_value (?G t) = nat (4 * int (basis_value t) mod 15)
       \<and> 1 \<le> basis_value (?G t) \<and> basis_value (?G t) \<le> 14" for t
    using step_mult_4 [of t] by (simp add: iteration_twice [OF a'])
  have "(iteration_bits a ^^ k) s = (?G ^^ j) s"
    unfolding k G [symmetric] by (simp add: funpow_mult)
  moreover have "basis_value ((?G ^^ j) s) = nat (4 ^ j * int (basis_value s) mod 15)"
    using funpow_mult_scheme [of ?G 4 s j, OF step s] by simp
  ultimately show ?thesis
    unfolding k by (simp add: square_mod_15 [OF a'])
qed

lemma oracle_perm_four:
  assumes "a \<in> {2, 4, 7, 8, 11, 13}" "x < 16"
  shows "(oracle_perm a ^^ 4) x = x"
proof -
  have "length (basis_state 4 x) = 4" by (rule basis_state_length)
  then have "(iteration_bits a ^^ 4) (basis_state 4 x) = basis_state 4 x"
    by (rule iteration_bits_four [OF assms(1)])
  then have "basis_value ((iteration_bits a ^^ 4) (basis_state 4 x)) = x"
    by (simp add: basis_value_state [OF assms(2)])
  then show ?thesis
    by (simp add: oracle_perm_funpow [OF assms(1)] basis_value_state [OF assms(2)])
qed

lemma oracle_perm_order:
  assumes "a \<in> {2, 4, 7, 8, 11, 13}" "x < 16"
  shows "(oracle_perm a ^^ mult_order a 15) x = x"
proof -
  have "length (basis_state 4 x) = 4" by (rule basis_state_length)
  then have "(iteration_bits a ^^ mult_order a 15) (basis_state 4 x) = basis_state 4 x"
    by (rule iteration_bits_order [OF assms(1)])
  then have "basis_value ((iteration_bits a ^^ mult_order a 15) (basis_state 4 x)) = x"
    by (simp add: basis_value_state [OF assms(2)])
  then show ?thesis
    by (simp add: oracle_perm_funpow [OF assms(1)] basis_value_state [OF assms(2)])
qed

lemma oracle_perm_bij:
  assumes a: "a \<in> {2, 4, 7, 8, 11, 13}"
  shows "bij_betw (oracle_perm a) {..<16} {..<16}"
proof -
  let ?f = "oracle_perm a"
  have closed: "(?f ^^ k) x < 16" if "x < 16" for k x
    using that by (rule oracle_funpow_bound [OF a])
  have e: "(g ^^ 4) z = g ((g ^^ 3) z)" "(g ^^ 4) z = (g ^^ 3) (g z)"
    for g :: "nat \<Rightarrow> nat" and z
    by (simp_all add: eval_nat_numeral)
  have four: "(?f ^^ 3) (?f x) = x" "?f ((?f ^^ 3) x) = x" if "x < 16" for x
  proof -
    have "(?f ^^ 3) (?f x) = (?f ^^ 4) x" by (rule e(2) [symmetric])
    also have "\<dots> = x" by (rule oracle_perm_four [OF a that])
    finally show "(?f ^^ 3) (?f x) = x" .
    have "?f ((?f ^^ 3) x) = (?f ^^ 4) x" by (rule e(1) [symmetric])
    also have "\<dots> = x" by (rule oracle_perm_four [OF a that])
    finally show "?f ((?f ^^ 3) x) = x" .
  qed
  have inj: "inj_on ?f {..<16}"
  proof (rule inj_onI)
    fix x y assume "x \<in> {..<(16::nat)}" "y \<in> {..<(16::nat)}" and fxy: "?f x = ?f y"
    then have x: "x < 16" and y: "y < 16" by simp_all
    have "x = (?f ^^ 3) (?f x)" by (rule four(1) [OF x, symmetric])
    also have "\<dots> = (?f ^^ 3) (?f y)" by (simp only: fxy)
    also have "\<dots> = y" by (rule four(1) [OF y])
    finally show "x = y" .
  qed
  have img: "?f ` {..<16} = {..<16}"
  proof (rule set_eqI, rule iffI)
    fix y assume "y \<in> ?f ` {..<16}"
    then obtain x where x: "x < 16" and y: "y = ?f x" by auto
    have "(?f ^^ 1) x < 16" by (rule closed [OF x])
    then show "y \<in> {..<16}" unfolding y by simp
  next
    fix y assume "y \<in> {..<(16::nat)}"
    then have y: "y < 16" by simp
    have "(?f ^^ 3) y \<in> {..<16}" using closed [OF y, of 3] by simp
    moreover have "y = ?f ((?f ^^ 3) y)" by (rule four(2) [OF y, symmetric])
    ultimately show "y \<in> ?f ` {..<16}" by (rule rev_image_eqI)
  qed
  from inj img show ?thesis by (simp add: bij_betw_def)
qed

lemma oracle_action_mult:
  assumes a: "a \<in> {2, 4, 7, 8, 11, 13}"
    and x: "1 \<le> x" "x \<le> 14"
    and p: "a \<in> {4, 11} \<or> even (nat pw)"
  shows "oracle_action a pw x = Inr (Some (nat (a ^ nat pw * int x mod 15)))"
proof -
  from x have x16: "x < 16" by simp
  have v: "basis_value (basis_state 4 x) = x" by (rule basis_value_state [OF x16])
  have "basis_value ((iteration_bits a ^^ nat pw) (basis_state 4 x)) =
      nat (a ^ nat pw * int (basis_value (basis_state 4 x)) mod 15)"
    using x by (intro bits_mult [OF a _ _ _ p]) (simp_all add: basis_state_length v)
  then show ?thesis
    by (simp add: oracle_action_bits [OF a] v)
qed

text \<open>
  C1, as amended: for every base \<open>a\<close> of 2, 4, 7, 8, 11, 13 and every positive power
  \<open>p\<close>, the circuit \<open>c_amod15(a, p)\<close> maps each of the 16 basis states of the work
  register to a basis state, namely to the \<open>p\<close>-fold image under the permutation of
  one application; on the states 1 to 14 it is \<open>x \<mapsto> a^p * x mod 15\<close> when the base
  is 4 or 11 or the power is even; and the permutation of one application composed
  with itself \<open>order(a)\<close> times is the identity on all 16 states.
\<close>

theorem oracle_permutation:
  "a \<in> {2, 4, 7, 8, 11, 13} \<Longrightarrow> 0 < p \<Longrightarrow> x < 16 \<Longrightarrow>
     oracle_action a p x = Inr (Some ((oracle_perm a ^^ nat p) x))
   \<and> bij_betw (oracle_perm a) {..<16} {..<16}
   \<and> (1 \<le> x \<and> x \<le> 14 \<and> (a \<in> {4, 11} \<or> even p) \<longrightarrow>
        oracle_action a p x = Inr (Some (nat (a ^ nat p * int x mod 15))))
   \<and> (oracle_perm a ^^ mult_order a 15) x = x"
proof (intro conjI impI)
  assume a: "a \<in> {2, 4, 7, 8, 11, 13}" and p: "0 < p" and x: "x < 16"
  show "oracle_action a p x = Inr (Some ((oracle_perm a ^^ nat p) x))"
    by (rule oracle_action_funpow [OF a x])
  show "bij_betw (oracle_perm a) {..<16} {..<16}"
    by (rule oracle_perm_bij [OF a])
  show "(oracle_perm a ^^ mult_order a 15) x = x"
    by (rule oracle_perm_order [OF a x])
  assume h: "1 \<le> x \<and> x \<le> 14 \<and> (a \<in> {4, 11} \<or> even p)"
  from p have "even (nat p) = even p" by (simp add: even_nat_iff)
  with h have "a \<in> {4, 11} \<or> even (nat p)" by simp
  with h show "oracle_action a p x = Inr (Some (nat (a ^ nat p * int x mod 15)))"
    by (intro oracle_action_mult [OF a]) simp_all
qed

theorem oracle_permutation_witness:
  "((4::int) \<in> {2, 4, 7, 8, 11, 13} \<and> (0::int) < 3 \<and> (7::nat) < 16
     \<and> (1::nat) \<le> 7 \<and> (7::nat) \<le> 14 \<and> (4::int) \<in> {4, 11})
   \<and> oracle_action 4 3 7 = Inr (Some 13)
   \<and> (oracle_perm 4 ^^ mult_order 4 15) 7 = 7
   \<and> ((7::int) \<in> {2, 4, 7, 8, 11, 13} \<and> (0::int) < 2 \<and> (3::nat) < 16
     \<and> (1::nat) \<le> 3 \<and> (3::nat) \<le> 14 \<and> even (2::int))
   \<and> oracle_action 7 2 3 = Inr (Some 12)"
proof -
  have "oracle_action 4 3 7 = Inr (Some (nat (4 ^ nat 3 * int 7 mod 15)))"
    by (rule oracle_permutation [of 4 3 7, THEN conjunct2, THEN conjunct2, THEN conjunct1,
          THEN mp]) simp_all
  moreover have "(oracle_perm 4 ^^ mult_order 4 15) 7 = 7"
    by (rule oracle_permutation [of 4 3 7, THEN conjunct2, THEN conjunct2, THEN conjunct2])
      simp_all
  moreover have "oracle_action 7 2 3 = Inr (Some (nat (7 ^ nat 2 * int 3 mod 15)))"
    by (rule oracle_permutation [of 7 2 3, THEN conjunct2, THEN conjunct2, THEN conjunct1,
          THEN mp]) simp_all
  ultimately show ?thesis by simp
qed

text \<open>
  The claim fails as stated at two kinds of input. The bases 7, 11 and 13 end each
  pass with an \<open>x\<close> on every qubit, so the state 0 goes to 15, where
  \<open>a * 0 mod 15\<close> is 0. And with qubit 0 as the least significant bit, one pass
  for base 2 takes the state 1 to 8, not to 2.
\<close>

theorem oracle_multiplication_counterexample:
  "oracle_action 7 1 0 = Inr (Some 15) \<and> nat (7 ^ nat 1 * int 0 mod 15) = 0
   \<and> oracle_action 2 1 1 = Inr (Some 8) \<and> nat (2 ^ nat 1 * int 1 mod 15) = 2"
  by code_simp

end
